theory Spec2Isabelle
  imports
    Main
    "HOL-Library.Char_ord"
    "HOL-Library.List_Lexorder"
    "HOL-Library.Product_Lexorder"
    "HOL-Library.AList"
begin

section \<open>Text primitives of the scraper\<close>

text \<open>
  The scraper \<^verbatim>\<open>cli_scraper.py\<close> works on Python \<^verbatim>\<open>str\<close> values. A text is modelled as
  a \<^typ>\<open>string\<close>; a \<^typ>\<open>char\<close> stands for the code point of the same number
  (U+0000 to U+00FF). Three character classes of Python's \<^verbatim>\<open>re\<close> and \<^verbatim>\<open>str\<close> are used
  by the source: \<^verbatim>\<open>\s\<close> (the characters of \<^verbatim>\<open>str.isspace\<close>, which \<^verbatim>\<open>str.strip\<close> removes
  too), \<^verbatim>\<open>\w\<close> (alphanumeric or underscore) and the line break of \<^verbatim>\<open>.\<close>, \<^verbatim>\<open>^\<close> and \<^verbatim>\<open>$\<close>,
  which is \<^verbatim>\<open>\n\<close> alone.
\<close>

definition newline :: char where
  "newline = CHR 0x0A"

definition is_space :: "char \<Rightarrow> bool" where
  "is_space c = (let n = (of_char c :: nat) in
     (9 \<le> n \<and> n \<le> 13) \<or> (28 \<le> n \<and> n \<le> 32) \<or> n = 133 \<or> n = 160)"

definition is_word :: "char \<Rightarrow> bool" where
  "is_word c = (let n = (of_char c :: nat) in
     (48 \<le> n \<and> n \<le> 57) \<or> (65 \<le> n \<and> n \<le> 90) \<or> n = 95 \<or> (97 \<le> n \<and> n \<le> 122)
     \<or> n = 170 \<or> n = 178 \<or> n = 179 \<or> n = 181 \<or> n = 185 \<or> n = 186
     \<or> (188 \<le> n \<and> n \<le> 190) \<or> (192 \<le> n \<and> n \<le> 214) \<or> (216 \<le> n \<and> n \<le> 246)
     \<or> 248 \<le> n)"

text \<open>\<^verbatim>\<open>str.lower\<close> on one character.\<close>

definition lower_char :: "char \<Rightarrow> char" where
  "lower_char c = (let n = (of_char c :: nat) in
     if (65 \<le> n \<and> n \<le> 90) \<or> (192 \<le> n \<and> n \<le> 214) \<or> (216 \<le> n \<and> n \<le> 222)
     then char_of (n + 32) else c)"

definition lower :: "string \<Rightarrow> string" where
  "lower s = map lower_char s"

text \<open>\<^verbatim>\<open>str.strip()\<close>: white space removed at both ends.\<close>

definition strip :: "string \<Rightarrow> string" where
  "strip s = rev (dropWhile is_space (rev (dropWhile is_space s)))"

text \<open>\<^verbatim>\<open>sep.join(parts)\<close>.\<close>

fun join :: "string \<Rightarrow> string list \<Rightarrow> string" where
  "join sep [] = []"
| "join sep [x] = x"
| "join sep (x # y # ys) = x @ sep @ join sep (y # ys)"

text \<open>\<^verbatim>\<open>s.startswith(p)\<close>, used for the literal parts of the patterns.\<close>

definition starts_with :: "string \<Rightarrow> string \<Rightarrow> bool" where
  "starts_with p s = (take (length p) s = p)"

text \<open>\<^verbatim>\<open>s.ljust(n)\<close>: padded with spaces on the right up to length \<open>n\<close>.\<close>

definition ljust :: "nat \<Rightarrow> string \<Rightarrow> string" where
  "ljust n s = s @ replicate (n - length s) CHR '' ''"

subsection \<open>\<^verbatim>\<open>replace_angle_brackets\<close>\<close>

text \<open>
  \<^verbatim>\<open>re.sub(r'<(.*?)>', r'`\1`', text)\<close>. Without the DOTALL flag \<^verbatim>\<open>.\<close> does not match a
  line break, so from an opening bracket the lazy group runs to the first \<^verbatim>\<open>>\<close> unless a
  line break comes first; \<open>scan_close\<close> returns the group and the text after the closing
  bracket. Where the pattern does not match at a position the character is kept and the
  search goes on at the next one, as \<^verbatim>\<open>re.sub\<close> does.
\<close>

fun scan_close :: "string \<Rightarrow> (string \<times> string) option" where
  "scan_close [] = None"
| "scan_close (c # cs) =
     (if c = CHR ''>'' then Some ([], cs)
      else if c = newline then None
      else (case scan_close cs of
              None \<Rightarrow> None
            | Some (name, rest) \<Rightarrow> Some (c # name, rest)))"

lemma scan_close_length: "scan_close s = Some (name, rest) \<Longrightarrow> length rest < length s"
  by (induction s arbitrary: name rest) (auto split: if_splits option.splits)

function replace_angle_brackets :: "string \<Rightarrow> string" where
  "replace_angle_brackets [] = []"
| "replace_angle_brackets (c # cs) =
     (if c = CHR ''<'' then
        (case scan_close cs of
           Some (name, rest) \<Rightarrow> CHR 0x60 # name @ CHR 0x60 # replace_angle_brackets rest
         | None \<Rightarrow> c # replace_angle_brackets cs)
      else c # replace_angle_brackets cs)"
  by pat_completeness auto
termination
  by (relation "measure length") (auto dest: scan_close_length)

subsection \<open>\<^verbatim>\<open>generate_anchor_id\<close>\<close>

text \<open>
  The tool name and the chain joined with \<^verbatim>\<open>-\<close>, lower-cased, and every character other
  than a word character or \<^verbatim>\<open>-\<close> removed (\<^verbatim>\<open>re.sub(r'[^\w\-]', '', ...)\<close>).
\<close>

definition anchor_char :: "char \<Rightarrow> bool" where
  "anchor_char c = (is_word c \<or> c = CHR ''-'')"

definition generate_anchor_id :: "string \<Rightarrow> string list \<Rightarrow> string" where
  "generate_anchor_id cli_tool command_chain =
     (let full_chain = cli_tool # command_chain;
          anchor_str = join ''-'' full_chain
      in filter anchor_char (lower anchor_str))"

section \<open>Parsing one help text\<close>

subsection \<open>Description\<close>

text \<open>
  \<^verbatim>\<open>re.search(r"(?s)^\s*(.*?)\n\s*Usage:", output)\<close>. Without MULTILINE \<^verbatim>\<open>^\<close> matches at
  the start of the text only. \<open>usage_here\<close> is the tail \<^verbatim>\<open>\n\s*Usage:\<close> matched at the head
  of a text: the greedy \<^verbatim>\<open>\s*\<close> has to take all white space, since \<^verbatim>\<open>U\<close> is none.
  \<open>lazy_until_usage\<close> is the lazy group followed by that tail: the group ends at the first
  position where the tail matches. The leading greedy \<^verbatim>\<open>\s*\<close> takes all leading white space
  first; only when no later position matches does it give characters back, and the match
  it can still find starts at a line break inside the leading white space, with an empty
  group.
\<close>

definition usage_here :: "string \<Rightarrow> bool" where
  "usage_here s =
     (case s of
        [] \<Rightarrow> False
      | c # cs \<Rightarrow> c = newline \<and> starts_with ''Usage:'' (dropWhile is_space cs))"

fun lazy_until_usage :: "string \<Rightarrow> string option" where
  "lazy_until_usage [] = None"
| "lazy_until_usage (c # cs) =
     (if usage_here (c # cs) then Some []
      else map_option ((#) c) (lazy_until_usage cs))"

definition description_match :: "string \<Rightarrow> string option" where
  "description_match output =
     (let ws = takeWhile is_space output;
          rest = dropWhile is_space output
      in case lazy_until_usage rest of
           Some g \<Rightarrow> Some g
         | None \<Rightarrow>
             if newline \<in> set ws \<and> starts_with ''Usage:'' rest then Some [] else None)"

definition extract_description :: "string \<Rightarrow> string" where
  "extract_description output =
     (case description_match output of
        Some g \<Rightarrow> replace_angle_brackets (strip g)
      | None \<Rightarrow> [])"

subsection \<open>Blocks under a header line\<close>

text \<open>
  \<^verbatim>\<open>re.search(r"(?sm)^Flags:\n(.*?)(?:\n\n|^\S|\Z)", output)\<close> and its siblings for
  \<^verbatim>\<open>Global Flags:\<close> and \<^verbatim>\<open>Available Commands?:\<close>/\<^verbatim>\<open>Commands?:\<close>. With MULTILINE \<^verbatim>\<open>^\<close>
  matches at the start of the text and after every line break; the flag \<open>bol\<close> says
  whether the head of the remaining text is such a position. \<open>block_body\<close> is the lazy
  group followed by the terminator: it stops at the first position that has two line
  breaks, or is a line start with a character that is no white space, or is the end of
  the text. Since the end always terminates, the search succeeds at the first line start
  where a header matches.
\<close>

fun block_body :: "bool \<Rightarrow> string \<Rightarrow> string" where
  "block_body bol [] = []"
| "block_body bol (c # cs) =
     (if starts_with [newline, newline] (c # cs) \<or> (bol \<and> \<not> is_space c) then []
      else c # block_body (c = newline) cs)"

fun search_block :: "string list \<Rightarrow> bool \<Rightarrow> string \<Rightarrow> string option" where
  "search_block headers bol [] = None"
| "search_block headers bol (c # cs) =
     (if bol then
        (case find (\<lambda>h. starts_with h (c # cs)) headers of
           Some h \<Rightarrow> Some (block_body True (drop (length h) (c # cs)))
         | None \<Rightarrow> search_block headers (c = newline) cs)
      else search_block headers (c = newline) cs)"

definition flags_headers :: "string list" where
  "flags_headers = [''Flags:'' @ [newline]]"

definition global_flags_headers :: "string list" where
  "global_flags_headers = [''Global Flags:'' @ [newline]]"

definition subcommands_headers :: "string list" where
  "subcommands_headers =
     [''Available Commands:'' @ [newline], ''Available Command:'' @ [newline],
      ''Commands:'' @ [newline], ''Command:'' @ [newline]]"

subsection \<open>Lines of a block\<close>

text \<open>
  Flag lines: \<^verbatim>\<open>^\s+(-{1,2}[^\s,]+(?:,\s*-{1,2}[^\s,]+)*)\s+(.*)$\<close>, subcommand lines:
  \<^verbatim>\<open>^\s+([^\s]+)\s+(.*)$\<close>, both with MULTILINE and without DOTALL. In both patterns
  every greedy run is followed by something that cannot start with a character of the
  run, so each run is maximal and giving characters back never yields a match: the white
  space runs (which may span line breaks) are \<open>takeWhile is_space\<close>, a token
  \<^verbatim>\<open>-{1,2}[^\s,]+\<close> is a maximal run of \<^verbatim>\<open>[^\s,]\<close> that starts with a dash and has at least
  two characters, and the last group is the rest of the line where the second white
  space run ends.
\<close>

datatype line_kind = Flag_Line | Subcommand_Line

definition flag_char :: "char \<Rightarrow> bool" where
  "flag_char c = (\<not> is_space c \<and> c \<noteq> CHR '','')"

definition flag_token :: "string \<Rightarrow> (string \<times> string) option" where
  "flag_token s =
     (let tok = takeWhile flag_char s
      in if starts_with ''-'' s \<and> 2 \<le> length tok then Some (tok, dropWhile flag_char s)
         else None)"

lemma flag_token_length: "flag_token s = Some (tok, rest) \<Longrightarrow> length rest < length s"
  by (cases s) (auto simp: flag_token_def Let_def length_dropWhile_le le_imp_less_Suc
      split: if_splits)

text \<open>The repetition \<^verbatim>\<open>(?:,\s*-{1,2}[^\s,]+)*\<close>: the text it takes and the text after it.\<close>

function more_flag_names :: "string \<Rightarrow> string \<times> string" where
  "more_flag_names [] = ([], [])"
| "more_flag_names (c # r) =
     (if c = CHR '','' then
        (case flag_token (dropWhile is_space r) of
           None \<Rightarrow> ([], c # r)
         | Some (tok, rest) \<Rightarrow>
             (let (more, rest') = more_flag_names rest
              in (c # takeWhile is_space r @ tok @ more, rest')))
      else ([], c # r))"
  by pat_completeness auto
termination
proof (relation "measure length", goal_cases)
  case 1
  show ?case by simp
next
  case (2 c r x tok rest)
  from 2 have "length rest < length (dropWhile is_space r)"
    by (auto dest: flag_token_length)
  also have "\<dots> \<le> length r" by (rule length_dropWhile_le)
  finally show ?case by simp
qed

definition first_token :: "line_kind \<Rightarrow> string \<Rightarrow> (string \<times> string) option" where
  "first_token kind s =
     (case kind of
        Flag_Line \<Rightarrow>
          (case flag_token s of
             None \<Rightarrow> None
           | Some (tok, rest) \<Rightarrow>
               (let (more, rest') = more_flag_names rest in Some (tok @ more, rest')))
      | Subcommand_Line \<Rightarrow>
          (let tok = takeWhile (\<lambda>c. \<not> is_space c) s
           in if tok = [] then None else Some (tok, dropWhile (\<lambda>c. \<not> is_space c) s)))"

text \<open>One match at a line start: the two groups and the text after the match.\<close>

definition match_line :: "line_kind \<Rightarrow> string \<Rightarrow> ((string \<times> string) \<times> string) option" where
  "match_line kind s =
     (if takeWhile is_space s = [] then None
      else case first_token kind (dropWhile is_space s) of
             None \<Rightarrow> None
           | Some (names, s') \<Rightarrow>
               if takeWhile is_space s' = [] then None
               else (let s'' = dropWhile is_space s'
                     in Some ((names, takeWhile (\<lambda>c. c \<noteq> newline) s''),
                              dropWhile (\<lambda>c. c \<noteq> newline) s'')))"

lemma more_flag_names_length: "length (snd (more_flag_names r)) \<le> length r"
proof (induction r rule: more_flag_names.induct)
  case 1
  show ?case by simp
next
  case (2 c r)
  show ?case
  proof (cases "c = CHR '',''")
    case False
    then show ?thesis by simp
  next
    case True
    show ?thesis
    proof (cases "flag_token (dropWhile is_space r)")
      case None
      with True show ?thesis by simp
    next
      case (Some p)
      obtain tok rest where p: "p = (tok, rest)" by (cases p)
      from "2.IH" [OF True] Some p
      have "length (snd (more_flag_names rest)) \<le> length rest" by simp
      moreover from Some p have "length rest < length (dropWhile is_space r)"
        by (auto dest: flag_token_length)
      moreover have "length (dropWhile is_space r) \<le> length r"
        by (rule length_dropWhile_le)
      ultimately show ?thesis using True Some p
        by (simp add: case_prod_beta)
    qed
  qed
qed

lemma first_token_length: "first_token kind s = Some (names, rest) \<Longrightarrow> length rest \<le> length s"
proof (cases kind)
  case Flag_Line
  assume a: "first_token kind s = Some (names, rest)"
  from a Flag_Line obtain tok r more where
    t: "flag_token s = Some (tok, r)" and m: "more_flag_names r = (more, rest)"
    by (auto simp: first_token_def split: option.splits prod.splits)
  from more_flag_names_length [of r] m have "length rest \<le> length r" by simp
  with flag_token_length [OF t] show ?thesis by simp
next
  case Subcommand_Line
  assume "first_token kind s = Some (names, rest)"
  with Subcommand_Line show ?thesis
    by (auto simp: first_token_def Let_def length_dropWhile_le split: if_splits)
qed

lemma match_line_length: "match_line kind s = Some (m, rest) \<Longrightarrow> length rest < length s"
proof -
  assume a: "match_line kind s = Some (m, rest)"
  then have ws: "takeWhile is_space s \<noteq> []"
    by (auto simp: match_line_def split: if_splits)
  from a ws obtain names s' where
    f: "first_token kind (dropWhile is_space s) = Some (names, s')"
    and r: "rest = dropWhile (\<lambda>c. c \<noteq> newline) (dropWhile is_space s')"
    by (auto simp: match_line_def Let_def split: if_splits option.splits)
  have "length rest \<le> length (dropWhile is_space s')"
    unfolding r by (rule length_dropWhile_le)
  also have "\<dots> \<le> length s'" by (rule length_dropWhile_le)
  also from f have "\<dots> \<le> length (dropWhile is_space s)" by (rule first_token_length)
  also from ws have "\<dots> < length s"
    by (cases s) (auto simp: length_dropWhile_le le_imp_less_Suc split: if_splits)
  finally show ?thesis .
qed

text \<open>
  \<^verbatim>\<open>re.findall(pattern, text, re.MULTILINE)\<close>: the matches from left to right, each search
  starting where the last match ended. A match ends at the end of a line, after at least
  one character of that line unless the text ends there, so the position after a match is
  no line start at which a further match could begin.
\<close>

function findall_lines :: "line_kind \<Rightarrow> bool \<Rightarrow> string \<Rightarrow> (string \<times> string) list" where
  "findall_lines kind bol [] = []"
| "findall_lines kind bol (c # cs) =
     (if bol then
        (case match_line kind (c # cs) of
           Some (m, rest) \<Rightarrow> m # findall_lines kind False rest
         | None \<Rightarrow> findall_lines kind (c = newline) cs)
      else findall_lines kind (c = newline) cs)"
  by pat_completeness auto
termination
  by (relation "measure (\<lambda>(kind, bol, s). length s)") (auto dest: match_line_length)

text \<open>The three extraction steps of \<^verbatim>\<open>get_command_structure\<close> on one help text.\<close>

definition extract_flags :: "string \<Rightarrow> (string \<times> string) list" where
  "extract_flags output =
     (let flags =
            (case search_block flags_headers True output of
               Some flags_text \<Rightarrow> findall_lines Flag_Line True flags_text
             | None \<Rightarrow> [])
            @ (case search_block global_flags_headers True output of
                 Some global_flags_text \<Rightarrow> findall_lines Flag_Line True global_flags_text
               | None \<Rightarrow> [])
      in map (\<lambda>f. (strip (fst f), replace_angle_brackets (strip (snd f)))) flags)"

definition subcommand_lines :: "string \<Rightarrow> (string \<times> string) list" where
  "subcommand_lines output =
     (case search_block subcommands_headers True output of
        Some subcommands_text \<Rightarrow> findall_lines Subcommand_Line True subcommands_text
      | None \<Rightarrow> [])"

text \<open>\<^verbatim>\<open>sorted(set(subcommand_lines))\<close>, pairs compared as Python compares tuples of \<^verbatim>\<open>str\<close>.\<close>

definition sorted_set :: "(string \<times> string) list \<Rightarrow> (string \<times> string) list" where
  "sorted_set xs = sort (remdups xs)"

section \<open>The command tree and its builder\<close>

text \<open>
  The dictionary built for one command. \<open>subcommands\<close> is a Python \<^verbatim>\<open>dict\<close>: keys are
  unique and kept in the order of their first insertion, \<^verbatim>\<open>d[k] = v\<close> is \<^const>\<open>AList.update\<close>.
\<close>

datatype node = Node (description: string) (flags: "(string \<times> string) list")
  (subcommands: "(string \<times> node) list")

definition set_description :: "string \<Rightarrow> node \<Rightarrow> node" where
  "set_description d n = Node d (flags n) (subcommands n)"

text \<open>
  The prober is \<^verbatim>\<open>subprocess.run(current_command + ["--help"], ...)\<close>: the argument
  vector is mapped to the captured output, or to \<open>None\<close> where the call raises (a timeout
  or a launch error). The state threaded through the build is the dictionary
  \<^verbatim>\<open>processed_commands\<close> and the list of the prober's invocations so far.
\<close>

type_synonym prober = "string list \<Rightarrow> string option"

record build_state =
  processed_commands :: "string \<rightharpoonup> node"
  probed :: "string list list"

definition command_key :: "string \<Rightarrow> string list \<Rightarrow> string" where
  "command_key cli_tool command_chain = join '' '' (cli_tool # command_chain)"

text \<open>
  \<open>get_command_structure\<close> with its loop over the sorted subcommand lines as a second
  function. A node returned by the recursive call is the object stored in
  \<^verbatim>\<open>processed_commands\<close>, so the assignment to its description in the loop changes the
  stored node too: the model writes the new node back under the key of the child.
  No other reference to that object exists at that time: the parent is neither stored
  nor attached before its loop ends.
\<close>

function get_command_structure ::
    "prober \<Rightarrow> string \<Rightarrow> string list \<Rightarrow> int \<Rightarrow> int \<Rightarrow> build_state \<Rightarrow> node option \<times> build_state"
  and process_subcommands ::
    "prober \<Rightarrow> string \<Rightarrow> string list \<Rightarrow> int \<Rightarrow> int \<Rightarrow> (string \<times> string) list
       \<Rightarrow> (string \<times> node) list \<Rightarrow> build_state \<Rightarrow> (string \<times> node) list \<times> build_state"
where
  "get_command_structure probe cli_tool command_chain max_depth current_depth st =
     (let current_command = cli_tool # command_chain
      in case processed_commands st (command_key cli_tool command_chain) of
           Some cached \<Rightarrow> (Some cached, st)
         | None \<Rightarrow>
             if current_depth > max_depth then (None, st)
             else
               (let st1 = st\<lparr>probed := probed st @ [current_command @ [''--help'']]\<rparr>
                in case probe (current_command @ [''--help'']) of
                     None \<Rightarrow> (None, st1)
                   | Some output \<Rightarrow>
                       if strip output = [] then (None, st1)
                       else
                         (let (subs, st2) =
                                process_subcommands probe cli_tool command_chain max_depth
                                  current_depth (sorted_set (subcommand_lines output)) [] st1;
                              command_structure =
                                Node (extract_description output) (extract_flags output) subs
                          in (Some command_structure,
                              st2\<lparr>processed_commands := (processed_commands st2)
                                    (command_key cli_tool command_chain \<mapsto> command_structure)\<rparr>))))"
| "process_subcommands probe cli_tool command_chain max_depth current_depth [] subs st = (subs, st)"
| "process_subcommands probe cli_tool command_chain max_depth current_depth (line # lines) subs st =
     (let subcmd = fst line;
          sub_desc_clean = replace_angle_brackets (strip (snd line));
          (sub_structure, st1) =
             get_command_structure probe cli_tool (command_chain @ [subcmd]) max_depth
               (current_depth + 1) st
      in case sub_structure of
           Some sub \<Rightarrow>
             if description sub = [] then
               (let sub' = set_description sub_desc_clean sub;
                    st2 = st1\<lparr>processed_commands := (processed_commands st1)
                            (command_key cli_tool (command_chain @ [subcmd]) \<mapsto> sub')\<rparr>
                in process_subcommands probe cli_tool command_chain max_depth current_depth lines
                     (AList.update subcmd sub' subs) st2)
             else process_subcommands probe cli_tool command_chain max_depth current_depth lines
                    (AList.update subcmd sub subs) st1
         | None \<Rightarrow>
             process_subcommands probe cli_tool command_chain max_depth current_depth lines
               (AList.update subcmd (Node sub_desc_clean [] []) subs) st1)"
  by pat_completeness auto
termination
  by (relation "measures
        [\<lambda>x. case x of
               Inl (probe, cli_tool, command_chain, max_depth, current_depth, st) \<Rightarrow>
                 2 * nat (max_depth + 1 - current_depth)
             | Inr (probe, cli_tool, command_chain, max_depth, current_depth, lines, subs, st) \<Rightarrow>
                 2 * nat (max_depth - current_depth) + 1,
         \<lambda>x. case x of
               Inl _ \<Rightarrow> 0
             | Inr (probe, cli_tool, command_chain, max_depth, current_depth, lines, subs, st) \<Rightarrow>
                 length lines]")
     auto

definition initial_state :: build_state where
  "initial_state = \<lparr>processed_commands = Map.empty, probed = []\<rparr>"

text \<open>
  A build: \<^verbatim>\<open>get_command_structure(cli_tool, max_depth=max_depth)\<close> with the defaults of
  the other parameters (empty chain, depth 0, a fresh dictionary).
\<close>

definition build :: "prober \<Rightarrow> string \<Rightarrow> int \<Rightarrow> node option \<times> build_state" where
  "build probe cli_tool max_depth = get_command_structure probe cli_tool [] max_depth 0 initial_state"

section \<open>Rendering the tree\<close>

text \<open>
  \<^verbatim>\<open>re.match(r'^(\w+)\s+(.*)', description)\<close> in the flags table: a maximal run of word
  characters, a maximal run of white space, and the rest of the line.
\<close>

definition desc_match :: "string \<Rightarrow> (string \<times> string) option" where
  "desc_match d =
     (let flag_type = takeWhile is_word d;
          d' = dropWhile is_word d
      in if flag_type = [] \<or> takeWhile is_space d' = [] then None
         else Some (flag_type, takeWhile (\<lambda>c. c \<noteq> newline) (dropWhile is_space d')))"

definition flag_line :: "string \<times> string \<Rightarrow> string \<times> string" where
  "flag_line flag_dict =
     (let flag_names = fst flag_dict;
          d = snd flag_dict
      in case desc_match d of
           Some (flag_type, flag_desc) \<Rightarrow> (flag_names @ '' '' @ flag_type, flag_desc)
         | None \<Rightarrow> (flag_names, d))"

definition flags_table :: "(string \<times> string) list \<Rightarrow> string" where
  "flags_table fs =
     (let flag_lines = map flag_line fs;
          max_len = fold max (map (\<lambda>f. length (fst f)) flag_lines) 0
      in ''**Flags:**'' @ [newline, newline]
         @ [CHR 0x60, CHR 0x60, CHR 0x60] @ ''bash'' @ [newline]
         @ concat (map (\<lambda>(fl, fd). ljust max_len fl @ ''    '' @ fd @ [newline]) flag_lines)
         @ [CHR 0x60, CHR 0x60, CHR 0x60, newline, newline])"

definition heading_level :: "string list \<Rightarrow> nat" where
  "heading_level command_chain = min (1 + length command_chain) 6"

definition heading_text :: "string \<Rightarrow> string list \<Rightarrow> string" where
  "heading_text cli_tool command_chain =
     (if length command_chain = 1 then cli_tool @ '' '' @ hd command_chain
      else join '' '' (tl command_chain))"

definition anchor_tag :: "string \<Rightarrow> string list \<Rightarrow> string" where
  "anchor_tag cli_tool command_chain =
     ''<a id='' @ [CHR 0x22] @ generate_anchor_id cli_tool command_chain @ [CHR 0x22]
       @ ''></a>'' @ [newline]"

definition heading_line :: "string \<Rightarrow> string list \<Rightarrow> string" where
  "heading_line cli_tool command_chain =
     replicate (heading_level command_chain) CHR ''#'' @ '' ''
       @ heading_text cli_tool command_chain @ [newline, newline]"

definition usage_block :: "string \<Rightarrow> string list \<Rightarrow> string" where
  "usage_block cli_tool command_chain =
     ''**Usage:**'' @ [newline]
       @ [CHR 0x60, CHR 0x60, CHR 0x60] @ ''bash'' @ [newline]
       @ cli_tool @ '' '' @ join '' '' command_chain @ '' [subcommand] [flags]'' @ [newline]
       @ [CHR 0x60, CHR 0x60, CHR 0x60, newline, newline]"

text \<open>The keys of the dictionary in the order of \<^verbatim>\<open>sorted(subcommands.keys())\<close>.\<close>

definition sorted_keys :: "(string \<times> node) list \<Rightarrow> string list" where
  "sorted_keys subs = sort (map fst subs)"

definition subcommand_index :: "string \<Rightarrow> string list \<Rightarrow> (string \<times> node) list \<Rightarrow> string" where
  "subcommand_index cli_tool command_chain subs =
     (if subs = [] then []
      else ''**Subcommands:**'' @ [newline, newline]
           @ concat (map (\<lambda>subcmd.
                 ''- ['' @ [CHR 0x60] @ subcmd @ [CHR 0x60] @ ''](#''
                   @ generate_anchor_id cli_tool (command_chain @ [subcmd]) @ ''): ''
                   @ (case map_of subs subcmd of Some sub \<Rightarrow> description sub | None \<Rightarrow> [])
                   @ [newline])
               (sorted_keys subs))
           @ [newline])"

lemma map_of_size_node:
  "map_of subs k = Some (sub :: node) \<Longrightarrow> size sub < Suc (size_list (size_prod (\<lambda>_. 0) size) subs)"
  by (induction subs) (auto split: if_splits)

text \<open>
  \<open>write_section\<close> returns the text that the source writes to the file, in the order of
  its \<^verbatim>\<open>file.write\<close> calls.
\<close>

function write_section :: "string \<Rightarrow> node \<Rightarrow> string list \<Rightarrow> string" where
  "write_section cli_tool structure command_chain =
     (if command_chain \<noteq> [] then
        anchor_tag cli_tool command_chain
        @ heading_line cli_tool command_chain
        @ (if description structure \<noteq> [] then description structure @ [newline, newline] else [])
        @ usage_block cli_tool command_chain
        @ subcommand_index cli_tool command_chain (subcommands structure)
      else [])
     @ (if command_chain \<noteq> [] \<and> flags structure \<noteq> [] then flags_table (flags structure) else [])
     @ concat (map (\<lambda>subcmd.
           case map_of (subcommands structure) subcmd of
             Some sub \<Rightarrow> write_section cli_tool sub (command_chain @ [subcmd])
           | None \<Rightarrow> [])
         (sorted_keys (subcommands structure)))"
  by pat_completeness auto
termination
proof (relation "measure (\<lambda>(cli_tool, structure, command_chain). size structure)", goal_cases)
  case 1
  show ?case by simp
next
  case (2 cli_tool n command_chain subcmd sub)
  then show ?case
    by (cases n) (auto dest: map_of_size_node)
qed

definition generate_markdown :: "node \<Rightarrow> string \<Rightarrow> string" where
  "generate_markdown cli_structure cli_tool = write_section cli_tool cli_structure []"


section \<open>Auxiliary notions for the properties\<close>

text \<open>
  A text whose angle brackets all belong to placeholders: every \<^verbatim>\<open><\<close> opens a placeholder
  that is closed by the next \<^verbatim>\<open>>\<close> with neither a line break nor another \<^verbatim>\<open><\<close> before it,
  and no \<^verbatim>\<open>>\<close> stands outside a placeholder. The flag says whether the scan is inside one.
\<close>

fun placeholders_only :: "bool \<Rightarrow> string \<Rightarrow> bool" where
  "placeholders_only inside [] = (\<not> inside)"
| "placeholders_only inside (c # cs) =
     (if inside then
        (if c = CHR ''>'' then placeholders_only False cs
         else c \<noteq> CHR ''<'' \<and> c \<noteq> newline \<and> placeholders_only True cs)
      else
        (if c = CHR ''<'' then placeholders_only True cs
         else c \<noteq> CHR ''>'' \<and> placeholders_only False cs))"

text \<open>Each angle bracket turned into a backtick.\<close>

definition backtick :: "char \<Rightarrow> char" where
  "backtick c = (if c = CHR ''<'' \<or> c = CHR ''>'' then CHR 0x60 else c)"

text \<open>What the anchor keeps of one token: lower-cased, other characters removed.\<close>

definition anchor_part :: "string \<Rightarrow> string" where
  "anchor_part s = filter anchor_char (lower s)"

text \<open>
  The failure of a probe as \<open>get_command_structure\<close> sees it: the call raised, or the
  output is empty after \<open>strip\<close>.
\<close>

definition probe_failed :: "prober \<Rightarrow> string list \<Rightarrow> bool" where
  "probe_failed probe current_command =
     (case probe (current_command @ [''--help'']) of
        None \<Rightarrow> True
      | Some output \<Rightarrow> strip output = [])"

text \<open>The node reached from a node along a path of subcommand names.\<close>

fun node_at :: "node \<Rightarrow> string list \<Rightarrow> node option" where
  "node_at n [] = Some n"
| "node_at n (k # ks) =
     (case map_of (subcommands n) k of
        Some sub \<Rightarrow> node_at sub ks
      | None \<Rightarrow> None)"

text \<open>
  What a call of the builder for the chain \<open>command_chain\<close> does to the state: the probes
  it adds are for chains that extend \<open>command_chain\<close> (properly so for the loop), none of
  them was stored before, the successful ones are stored afterwards, nothing stored is
  lost, and no successful one is added twice.
\<close>

definition probes_between ::
    "prober \<Rightarrow> string \<Rightarrow> string list \<Rightarrow> bool \<Rightarrow> build_state \<Rightarrow> build_state \<Rightarrow> bool" where
  "probes_between probe cli_tool command_chain proper st st' =
     (\<exists>new. probed st' = probed st @ new
        \<and> (\<forall>a\<in>set new. \<exists>e. a = cli_tool # (command_chain @ e) @ [''--help'']
                              \<and> (proper \<longrightarrow> e \<noteq> []))
        \<and> (\<forall>x. cli_tool # x @ [''--help''] \<in> set new
               \<longrightarrow> processed_commands st (command_key cli_tool x) = None)
        \<and> (\<forall>x. \<not> probe_failed probe (cli_tool # x) \<and> cli_tool # x @ [''--help''] \<in> set new
               \<longrightarrow> processed_commands st' (command_key cli_tool x) \<noteq> None)
        \<and> (\<forall>k. processed_commands st k \<noteq> None \<longrightarrow> processed_commands st' k \<noteq> None)
        \<and> (\<forall>x. \<not> probe_failed probe (cli_tool # x)
               \<longrightarrow> count_list new (cli_tool # x @ [''--help'']) \<le> 1))"









section \<open>Help texts used as concrete inputs\<close>

text \<open>Two siblings whose names differ in case only; no subcommand can be probed.\<close>

definition case_siblings_help :: string where
  "case_siblings_help =
     ''Usage: t'' @ [newline] @ ''Commands:'' @ [newline]
     @ ''  Create  one'' @ [newline] @ ''  create  two'' @ [newline]"

definition case_siblings_probe :: prober where
  "case_siblings_probe argv = (if argv = [''t'', ''--help''] then Some case_siblings_help else None)"

text \<open>A description with a comparison sign before a placeholder.\<close>

definition bracket_help :: string where
  "bracket_help = ''Keep size > <limit>'' @ [newline] @ ''Usage: t'' @ [newline]"

text \<open>The two-command scenario: the root help text and the help text of \<^verbatim>\<open>create\<close>.\<close>

definition sample_root_help :: string where
  "sample_root_help =
     ''A sample CLI.'' @ [newline]
     @ ''Usage: sample [command]'' @ [newline]
     @ ''Available Commands:'' @ [newline]
     @ ''  create   Create a thing'' @ [newline]
     @ ''Flags:'' @ [newline]
     @ ''  -h, --help   bool   show help'' @ [newline]"

definition sample_probe :: prober where
  "sample_probe argv =
     (if argv = [''sample'', ''--help''] then Some sample_root_help
      else if argv = [''sample'', ''create'', ''--help'']
        then Some (''Usage: sample create'' @ [newline])
      else None)"



text \<open>A tree with two commands under the root, the first with a subcommand of its own.\<close>

definition nested_tree :: node where
  "nested_tree =
     Node ''root'' []
       [(''b'', Node ''second'' [] []),
        (''a'', Node ''first'' [] [(''x'', Node ''inner'' [] [])])]"

text \<open>
  A listing that names \<^verbatim>\<open>x\<close> twice with different descriptions, with a prober that fails
  for \<^verbatim>\<open>x\<close> and one that answers; and a state in which \<^verbatim>\<open>t x\<close> is stored.
\<close>

definition duplicate_listing_help :: string where
  "duplicate_listing_help =
     ''Usage: t'' @ [newline] @ ''Commands:'' @ [newline]
     @ ''  x  A'' @ [newline] @ ''  x  B'' @ [newline]"

definition duplicate_failing_probe :: prober where
  "duplicate_failing_probe argv =
     (if argv = [''t'', ''--help''] then Some duplicate_listing_help else None)"

definition duplicate_working_probe :: prober where
  "duplicate_working_probe argv =
     (if argv = [''t'', ''--help''] then Some duplicate_listing_help
      else if argv = [''t'', ''x'', ''--help''] then Some (''Usage: t x'' @ [newline])
      else None)"

definition cached_state :: build_state where
  "cached_state =
     \<lparr>processed_commands = [''t x'' \<mapsto> Node ''cached'' [] []], probed = []\<rparr>"

















section \<open>Properties\<close>

declare get_command_structure.simps [simp del]
declare process_subcommands.simps [simp del]
declare write_section.simps [simp del]

subsection \<open>Angle brackets\<close>

lemma scan_close_inside:
  "placeholders_only True s \<Longrightarrow>
     \<exists>name rest. scan_close s = Some (name, rest) \<and> s = name @ CHR ''>'' # rest
        \<and> map backtick name = name \<and> placeholders_only False rest"
proof (induction s)
  case Nil
  then show ?case by simp
next
  case (Cons c cs)
  show ?case
  proof (cases "c = CHR ''>''")
    case True
    with Cons.prems show ?thesis by simp
  next
    case False
    with Cons.prems have c: "c \<noteq> CHR ''<''" "c \<noteq> newline" and cs: "placeholders_only True cs"
      by simp_all
    from Cons.IH [OF cs] obtain name rest where
      h: "scan_close cs = Some (name, rest)" "cs = name @ CHR ''>'' # rest"
         "map backtick name = name" "placeholders_only False rest"
      by blast
    from c False have "backtick c = c" by (simp add: backtick_def)
    with False c h show ?thesis
      by simp
  qed
qed

lemma replace_placeholders_only:
  "placeholders_only False t \<Longrightarrow> replace_angle_brackets t = map backtick t"
proof (induction t rule: replace_angle_brackets.induct)
  case 1
  then show ?case by simp
next
  case (2 c cs)
  show ?case
  proof (cases "c = CHR ''<''")
    case True
    with "2.prems" have "placeholders_only True cs" by simp
    from scan_close_inside [OF this] obtain name rest where
      h: "scan_close cs = Some (name, rest)" "cs = name @ CHR ''>'' # rest"
         "map backtick name = name" "placeholders_only False rest"
      by blast
    from "2.IH"(2) [OF True h(1) refl h(4)] have "replace_angle_brackets rest = map backtick rest" .
    moreover have "backtick CHR ''<'' = CHR 0x60" "backtick CHR ''>'' = CHR 0x60"
      by (simp_all add: backtick_def)
    ultimately show ?thesis using True h by simp
  next
    case False
    with "2.prems" have "c \<noteq> CHR ''>''" "placeholders_only False cs" by simp_all
    moreover from False this have "backtick c = c" by (simp add: backtick_def)
    ultimately show ?thesis using False "2.IH"(3) by simp
  qed
qed

lemma backtick_no_bracket: "backtick c \<noteq> CHR ''<'' \<and> backtick c \<noteq> CHR ''>''"
  by (simp add: backtick_def)

text \<open>
  C7, as amended. For every text whose angle brackets all belong to placeholders
  \<^verbatim>\<open><name>\<close> (the name without angle bracket and without line break, no angle bracket
  outside a placeholder), \<open>replace_angle_brackets\<close> turns each placeholder into the name
  between backticks, changes nothing else, and its result has no angle bracket.
\<close>

theorem replace_angle_brackets_placeholders:
  "placeholders_only False t \<Longrightarrow>
     replace_angle_brackets t = map backtick t
     \<and> CHR ''<'' \<notin> set (replace_angle_brackets t)
     \<and> CHR ''>'' \<notin> set (replace_angle_brackets t)"
proof -
  assume "placeholders_only False t"
  then have "replace_angle_brackets t = map backtick t"
    by (rule replace_placeholders_only)
  moreover have "CHR ''<'' \<notin> set (map backtick t)" "CHR ''>'' \<notin> set (map backtick t)"
    by (auto simp: backtick_def split: if_splits)
  ultimately show ?thesis by simp
qed

theorem replace_angle_brackets_placeholders_witness:
  "placeholders_only False ''Restore <snapshotName> now''
   \<and> replace_angle_brackets ''Restore <snapshotName> now''
       = ''Restore '' @ [CHR 0x60] @ ''snapshotName'' @ [CHR 0x60] @ '' now''
   \<and> CHR ''<'' \<notin> set (replace_angle_brackets ''Restore <snapshotName> now'')
   \<and> CHR ''>'' \<notin> set (replace_angle_brackets ''Restore <snapshotName> now'')"
proof -
  have h: "placeholders_only False ''Restore <snapshotName> now''"
    by (simp add: newline_def)
  have m: "map backtick ''Restore <snapshotName> now''
       = ''Restore '' @ [CHR 0x60] @ ''snapshotName'' @ [CHR 0x60] @ '' now''"
    by (simp add: backtick_def)
  from replace_angle_brackets_placeholders [OF h] h m show ?thesis by simp
qed

text \<open>
  C7, as stated, fails: the description \<^verbatim>\<open>Keep size > <limit>\<close> contains the placeholder
  \<^verbatim>\<open><limit>\<close>, and the extracted description still has the angle bracket before it.
\<close>

theorem stray_bracket_counterexample:
  "extract_description bracket_help = ''Keep size > '' @ [CHR 0x60] @ ''limit'' @ [CHR 0x60]
   \<and> CHR ''>'' \<in> set (extract_description bracket_help)"
  by code_simp


subsection \<open>Anchors\<close>

lemma join_snoc: "join sep (xs @ [a]) = (if xs = [] then a else join sep xs @ sep @ a)"
  by (induction sep xs rule: join.induct) auto

text \<open>
  The anchor written out: the tool name and the chain joined with \<^verbatim>\<open>-\<close>, lower-cased,
  with every character removed that is neither a word character nor \<^verbatim>\<open>-\<close>. The anchor
  of a child is the anchor of its parent, \<^verbatim>\<open>-\<close>, and what is kept of the child's name; so
  two siblings have the same anchor exactly when their names agree after lower-casing
  and removal of the other characters.
\<close>

lemma generate_anchor_id_siblings:
  "generate_anchor_id cli_tool command_chain
     = filter anchor_char (lower (join ''-'' (cli_tool # command_chain)))
   \<and> generate_anchor_id cli_tool (command_chain @ [a])
     = generate_anchor_id cli_tool command_chain @ ''-'' @ anchor_part a
   \<and> (generate_anchor_id cli_tool (command_chain @ [a])
        = generate_anchor_id cli_tool (command_chain @ [b]))
     = (anchor_part a = anchor_part b)"
proof -
  have "lower_char CHR ''-'' = CHR ''-''" by (simp add: lower_char_def)
  moreover have "anchor_char CHR ''-''" by (simp add: anchor_char_def)
  ultimately have
    "generate_anchor_id cli_tool (command_chain @ [x])
       = generate_anchor_id cli_tool command_chain @ ''-'' @ anchor_part x" for x
    using join_snoc [of "''-''" "cli_tool # command_chain" x]
    by (simp add: generate_anchor_id_def anchor_part_def lower_def del: join.simps)
  then show ?thesis
    by (simp add: generate_anchor_id_def)
qed

text \<open>
  C8. The anchors of distinct siblings of one tree are meant to be distinct (the docstring
  of \<^verbatim>\<open>generate_anchor_id\<close> promises a unique anchor), but the code does not achieve it:
  the build attaches the siblings \<^verbatim>\<open>Create\<close> and \<^verbatim>\<open>create\<close> to one root, and both get
  the anchor \<^verbatim>\<open>t-create\<close>.
\<close>

theorem sibling_anchor_counterexample:
  "fst (build case_siblings_probe ''t'' 10)
     = Some (Node [] [] [(''Create'', Node ''one'' [] []), (''create'', Node ''two'' [] [])])
   \<and> ''Create'' \<noteq> ''create''
   \<and> generate_anchor_id ''t'' [''Create''] = generate_anchor_id ''t'' [''create'']"
  by code_simp


subsection \<open>Single steps of the builder\<close>

lemma gcs_cached:
  "processed_commands st (command_key cli_tool command_chain) = Some n \<Longrightarrow>
   get_command_structure probe cli_tool command_chain max_depth current_depth st = (Some n, st)"
  by (simp add: get_command_structure.simps)

lemma gcs_too_deep:
  "processed_commands st (command_key cli_tool command_chain) = None \<Longrightarrow>
   max_depth < current_depth \<Longrightarrow>
   get_command_structure probe cli_tool command_chain max_depth current_depth st = (None, st)"
  by (simp add: get_command_structure.simps)

lemma gcs_probe_failed:
  "processed_commands st (command_key cli_tool command_chain) = None \<Longrightarrow>
   current_depth \<le> max_depth \<Longrightarrow>
   probe_failed probe (cli_tool # command_chain) \<Longrightarrow>
   get_command_structure probe cli_tool command_chain max_depth current_depth st
     = (None, st\<lparr>probed := probed st @ [cli_tool # command_chain @ [''--help'']]\<rparr>)"
  by (auto simp: get_command_structure.simps probe_failed_def Let_def split: option.splits)

lemma gcs_built:
  "processed_commands st (command_key cli_tool command_chain) = None \<Longrightarrow>
   current_depth \<le> max_depth \<Longrightarrow>
   probe (cli_tool # command_chain @ [''--help'']) = Some output \<Longrightarrow>
   strip output \<noteq> [] \<Longrightarrow>
   process_subcommands probe cli_tool command_chain max_depth current_depth
     (sorted_set (subcommand_lines output)) []
     (st\<lparr>probed := probed st @ [cli_tool # command_chain @ [''--help'']]\<rparr>) = (subs, st2) \<Longrightarrow>
   get_command_structure probe cli_tool command_chain max_depth current_depth st
     = (Some (Node (extract_description output) (extract_flags output) subs),
        st2\<lparr>processed_commands := (processed_commands st2)
          (command_key cli_tool command_chain \<mapsto>
             Node (extract_description output) (extract_flags output) subs)\<rparr>)"
  by (simp add: get_command_structure.simps Let_def)



subsection \<open>Failure of the build\<close>





subsection \<open>Depth bound zero\<close>

lemma loop_depth_cutoff:
  "processed_commands st = Map.empty \<Longrightarrow> max_depth \<le> current_depth \<Longrightarrow>
   process_subcommands probe cli_tool command_chain max_depth current_depth lines subs st
     = (fold (\<lambda>line. AList.update (fst line)
                (Node (replace_angle_brackets (strip (snd line))) [] [])) lines subs, st)"
proof (induction lines arbitrary: subs)
  case Nil
  show ?case by (simp add: process_subcommands.simps)
next
  case (Cons line lines)
  from Cons.prems
  have "get_command_structure probe cli_tool (command_chain @ [fst line]) max_depth
          (current_depth + 1) st = (None, st)"
    by (intro gcs_too_deep) simp_all
  with Cons.IH [OF Cons.prems] show ?case
    by (simp add: process_subcommands.simps Let_def)
qed

lemma set_update_subset: "set (AList.update k v al) \<subseteq> insert (k, v) (set al)"
  by (induction al) auto

lemma fold_stub_entries:
  "set (fold (\<lambda>line. AList.update (fst line) (f line)) lines subs)
     \<subseteq> set subs \<union> (\<lambda>line. (fst line, f line)) ` set lines"
proof (induction lines arbitrary: subs)
  case Nil
  show ?case by simp
next
  case (Cons line lines)
  from Cons.IH [of "AList.update (fst line) (f line) subs"]
    set_update_subset [of "fst line" "f line" subs]
  show ?case by auto
qed

lemma fold_stub_keys:
  "fst ` set (fold (\<lambda>line. AList.update (fst line) (f line)) lines subs)
     = fst ` set subs \<union> fst ` set lines"
  by (induction lines arbitrary: subs) (auto simp: dom_update)

text \<open>
  C5. With \<open>max_depth = 0\<close> and a root probe that does not fail, the root node is built
  from the root's help text; its subcommands are the names of the root listing; every
  child is a stub with the description of one of its listing lines (stripped, angle
  brackets replaced), empty flags and no subcommands; and the prober is called for the
  root only.
\<close>

theorem depth_zero_children_are_stubs:
  "\<not> probe_failed probe [cli_tool] \<Longrightarrow>
   \<exists>output subs st.
      probe [cli_tool, ''--help''] = Some output
    \<and> build probe cli_tool 0
        = (Some (Node (extract_description output) (extract_flags output) subs), st)
    \<and> probed st = [[cli_tool, ''--help'']]
    \<and> fst ` set subs = fst ` set (subcommand_lines output)
    \<and> (\<forall>(name, child) \<in> set subs.
          flags child = [] \<and> subcommands child = []
        \<and> (\<exists>d. (name, d) \<in> set (subcommand_lines output)
               \<and> description child = replace_angle_brackets (strip d)))"
proof -
  assume "\<not> probe_failed probe [cli_tool]"
  then obtain out where out: "probe [cli_tool, ''--help''] = Some out" "strip out \<noteq> []"
    by (auto simp: probe_failed_def split: option.splits)
  let ?stub = "\<lambda>line. Node (replace_angle_brackets (strip (snd line))) [] []"
  let ?lines = "sorted_set (subcommand_lines out)"
  let ?subs = "fold (\<lambda>line. AList.update (fst line) (?stub line)) ?lines []"
  let ?st1 = "initial_state\<lparr>probed := probed initial_state @ [cli_tool # [] @ [''--help'']]\<rparr>"
  let ?n = "Node (extract_description out) (extract_flags out) ?subs"
  let ?st = "?st1\<lparr>processed_commands := (processed_commands ?st1)(command_key cli_tool [] \<mapsto> ?n)\<rparr>"
  have loop: "process_subcommands probe cli_tool [] 0 0 ?lines [] ?st1 = (?subs, ?st1)"
    by (rule loop_depth_cutoff) (simp_all add: initial_state_def)
  have b: "build probe cli_tool 0 = (Some ?n, ?st)"
    unfolding build_def
    by (rule gcs_built [OF _ _ _ out(2) loop]) (simp_all add: initial_state_def out)
  have p: "probed ?st = [[cli_tool, ''--help'']]"
    by (simp add: initial_state_def)
  have lines: "set ?lines = set (subcommand_lines out)"
    by (simp add: sorted_set_def)
  have k: "fst ` set ?subs = fst ` set (subcommand_lines out)"
    using fold_stub_keys [of ?stub ?lines "[]"] lines by simp
  have e: "set ?subs \<subseteq> (\<lambda>line. (fst line, ?stub line)) ` set (subcommand_lines out)"
    using fold_stub_entries [of ?stub ?lines "[]"] lines by simp
  have v: "\<forall>(name, child) \<in> set ?subs.
          flags child = [] \<and> subcommands child = []
        \<and> (\<exists>d. (name, d) \<in> set (subcommand_lines out)
               \<and> description child = replace_angle_brackets (strip d))"
  proof (clarify, intro conjI)
    fix name child
    assume "(name, child) \<in> set ?subs"
    with e obtain line where l: "line \<in> set (subcommand_lines out)"
      "name = fst line" "child = ?stub line"
      by auto
    from l show "flags child = []" "subcommands child = []" by simp_all
    from l show "\<exists>d. (name, d) \<in> set (subcommand_lines out)
               \<and> description child = replace_angle_brackets (strip d)"
      by (intro exI [of _ "snd line"]) simp
  qed
  from out(1) b p k v show ?thesis by blast
qed

theorem depth_zero_children_are_stubs_witness:
  "\<not> probe_failed case_siblings_probe [''t'']
   \<and> fst (build case_siblings_probe ''t'' 0)
       = Some (Node [] [] [(''Create'', Node ''one'' [] []), (''create'', Node ''two'' [] [])])
   \<and> probed (snd (build case_siblings_probe ''t'' 0)) = [[''t'', ''--help'']]"
proof -
  have f: "\<not> probe_failed case_siblings_probe [''t'']"
    by code_simp
  from depth_zero_children_are_stubs [OF f] obtain out subs st where
    b: "build case_siblings_probe ''t'' 0
          = (Some (Node (extract_description out) (extract_flags out) subs), st)"
    and p: "probed st = [[''t'', ''--help'']]"
    by blast
  have v: "fst (build case_siblings_probe ''t'' 0)
       = Some (Node [] [] [(''Create'', Node ''one'' [] []), (''create'', Node ''two'' [] [])])"
    by code_simp
  from b p have "probed (snd (build case_siblings_probe ''t'' 0)) = [[''t'', ''--help'']]"
    by simp
  with f v show ?thesis by simp
qed

subsection \<open>The two-command scenario\<close>

text \<open>
  C3, as amended. On the two-command scenario the build yields the root with description
  \<^verbatim>\<open>A sample CLI.\<close>, the single flag \<^verbatim>\<open>-h, --help\<close> whose description is the rest of its
  line as it stands, \<^verbatim>\<open>bool   show help\<close> with its three blanks, and the single subcommand
  \<^verbatim>\<open>create\<close> with the description \<^verbatim>\<open>Create a thing\<close> of its listing line, no flags and no
  subcommands.
\<close>

theorem sample_fixture_tree:
  "fst (build sample_probe ''sample'' 10)
     = Some (Node ''A sample CLI.'' [(''-h, --help'', ''bool   show help'')]
               [(''create'', Node ''Create a thing'' [] [])])"
  by code_simp

text \<open>
  C3, as stated, fails: the description of the flag is not \<^verbatim>\<open>bool show help\<close>; the blanks
  inside the description are kept.
\<close>

theorem sample_fixture_flag_counterexample:
  "map flags (case fst (build sample_probe ''sample'' 10) of Some n \<Rightarrow> [n] | None \<Rightarrow> [])
     = [[(''-h, --help'', ''bool   show help'')]]
   \<and> ''bool   show help'' \<noteq> ''bool show help''"
  by code_simp


subsection \<open>Tokens with nothing after them\<close>






subsection \<open>Headings of the rendered document\<close>

lemma write_section_nonroot:
  "command_chain \<noteq> [] \<Longrightarrow>
   \<exists>rest. write_section cli_tool n command_chain
     = anchor_tag cli_tool command_chain @ heading_line cli_tool command_chain @ rest"
  by (subst write_section.simps) simp

lemma write_section_tail:
  "\<exists>head. write_section cli_tool n command_chain
     = head @ concat (map (\<lambda>subcmd. case map_of (subcommands n) subcmd of
                        Some sub \<Rightarrow> write_section cli_tool sub (command_chain @ [subcmd])
                      | None \<Rightarrow> [])
                   (sorted_keys (subcommands n)))"
proof -
  let ?a = "if command_chain \<noteq> [] then
        anchor_tag cli_tool command_chain
        @ heading_line cli_tool command_chain
        @ (if description n \<noteq> [] then description n @ [newline, newline] else [])
        @ usage_block cli_tool command_chain
        @ subcommand_index cli_tool command_chain (subcommands n)
      else []"
  let ?b = "if command_chain \<noteq> [] \<and> flags n \<noteq> [] then flags_table (flags n) else []"
  have "write_section cli_tool n command_chain
     = (?a @ ?b) @ concat (map (\<lambda>subcmd. case map_of (subcommands n) subcmd of
                        Some sub \<Rightarrow> write_section cli_tool sub (command_chain @ [subcmd])
                      | None \<Rightarrow> [])
                   (sorted_keys (subcommands n)))"
    by (subst write_section.simps) simp
  then show ?thesis by (rule exI)
qed

lemma write_section_child:
  "map_of (subcommands n) k = Some sub \<Longrightarrow>
   \<exists>pre post. write_section cli_tool n command_chain
     = pre @ write_section cli_tool sub (command_chain @ [k]) @ post"
proof -
  assume m: "map_of (subcommands n) k = Some sub"
  let ?f = "\<lambda>subcmd. case map_of (subcommands n) subcmd of
             Some sub \<Rightarrow> write_section cli_tool sub (command_chain @ [subcmd])
           | None \<Rightarrow> []"
  from m have "k \<in> set (sorted_keys (subcommands n))"
    by (auto simp: sorted_keys_def dest!: map_of_SomeD intro: rev_image_eqI)
  then obtain ks1 ks2 where ks: "sorted_keys (subcommands n) = ks1 @ k # ks2"
    by (auto dest: split_list)
  obtain head where
    w: "write_section cli_tool n command_chain = head @ concat (map ?f (sorted_keys (subcommands n)))"
    using write_section_tail [of cli_tool n command_chain] by blast
  from m have "concat (map ?f (sorted_keys (subcommands n)))
      = concat (map ?f ks1) @ write_section cli_tool sub (command_chain @ [k]) @ concat (map ?f ks2)"
    by (simp add: ks)
  with w have "write_section cli_tool n command_chain
      = (head @ concat (map ?f ks1)) @ write_section cli_tool sub (command_chain @ [k])
        @ concat (map ?f ks2)"
    by simp
  then show ?thesis by blast
qed

lemma write_section_contains_heading:
  "path \<noteq> [] \<Longrightarrow> node_at n path = Some m \<Longrightarrow>
   \<exists>pre post. write_section cli_tool n command_chain
     = pre @ anchor_tag cli_tool (command_chain @ path)
         @ heading_line cli_tool (command_chain @ path) @ post"
proof (induction path arbitrary: n command_chain)
  case Nil
  then show ?case by simp
next
  case (Cons k ks)
  from Cons.prems(2) obtain sub where
    sub: "map_of (subcommands n) k = Some sub" and at: "node_at sub ks = Some m"
    by (auto split: option.splits)
  from write_section_child [OF sub] obtain pre post where
    w: "write_section cli_tool n command_chain
          = pre @ write_section cli_tool sub (command_chain @ [k]) @ post"
    by blast
  have "\<exists>pre' post'. write_section cli_tool sub (command_chain @ [k])
      = pre' @ anchor_tag cli_tool (command_chain @ k # ks)
          @ heading_line cli_tool (command_chain @ k # ks) @ post'"
  proof (cases "ks = []")
    case True
    from write_section_nonroot [of "command_chain @ [k]" cli_tool sub] obtain rest where
      "write_section cli_tool sub (command_chain @ [k])
         = anchor_tag cli_tool (command_chain @ [k]) @ heading_line cli_tool (command_chain @ [k]) @ rest"
      by auto
    with True have "write_section cli_tool sub (command_chain @ [k])
         = [] @ anchor_tag cli_tool (command_chain @ k # ks)
             @ heading_line cli_tool (command_chain @ k # ks) @ rest"
      by simp
    then show ?thesis by blast
  next
    case False
    from Cons.IH [OF False at, of "command_chain @ [k]"] show ?thesis by simp
  qed
  then obtain pre' post' where
    "write_section cli_tool sub (command_chain @ [k])
      = pre' @ anchor_tag cli_tool (command_chain @ k # ks)
          @ heading_line cli_tool (command_chain @ k # ks) @ post'"
    by blast
  with w have "write_section cli_tool n command_chain
      = (pre @ pre') @ anchor_tag cli_tool (command_chain @ k # ks)
          @ heading_line cli_tool (command_chain @ k # ks) @ (post' @ post)"
    by simp
  then show ?case by blast
qed

text \<open>
  C9. For every command reached from the root along a non-empty path, the document
  contains the anchor tag of the path (\<^verbatim>\<open><a id="..."></a>\<close> with the anchor of the path,
  on a line of its own) directly followed by the heading: \<open>min (d + 1) 6\<close> hash signs,
  \<open>d\<close> the length of the path, a blank, the heading text, and an empty line. The root
  writes nothing of its own: the document is the concatenation of the sections of its
  subcommands in the sorted order of their names, and every section ends with the
  sections of its subcommands in that order.
\<close>

theorem rendered_headings:
  "(path \<noteq> [] \<and> node_at root path = Some n \<longrightarrow>
      (\<exists>pre post. generate_markdown root cli_tool
         = pre @ ''<a id='' @ [CHR 0x22] @ generate_anchor_id cli_tool path @ [CHR 0x22]
             @ ''></a>'' @ [newline]
             @ replicate (min (length path + 1) 6) CHR ''#'' @ '' ''
             @ (if length path = 1 then cli_tool @ '' '' @ hd path else join '' '' (tl path))
             @ [newline, newline] @ post))
   \<and> generate_markdown root cli_tool
       = concat (map (\<lambda>subcmd. case map_of (subcommands root) subcmd of
                        Some sub \<Rightarrow> write_section cli_tool sub [subcmd]
                      | None \<Rightarrow> [])
                   (sort (map fst (subcommands root))))
   \<and> (\<exists>head. write_section cli_tool n path
         = head @ concat (map (\<lambda>subcmd. case map_of (subcommands n) subcmd of
                        Some sub \<Rightarrow> write_section cli_tool sub (path @ [subcmd])
                      | None \<Rightarrow> [])
                   (sort (map fst (subcommands n)))))"
proof (intro conjI impI)
  assume "path \<noteq> [] \<and> node_at root path = Some n"
  with write_section_contains_heading [of path root n cli_tool "[]"]
  show "\<exists>pre post. generate_markdown root cli_tool
         = pre @ ''<a id='' @ [CHR 0x22] @ generate_anchor_id cli_tool path @ [CHR 0x22]
             @ ''></a>'' @ [newline]
             @ replicate (min (length path + 1) 6) CHR ''#'' @ '' ''
             @ (if length path = 1 then cli_tool @ '' '' @ hd path else join '' '' (tl path))
             @ [newline, newline] @ post"
    by (simp add: generate_markdown_def heading_line_def heading_level_def anchor_tag_def
        heading_text_def)
next
  show "generate_markdown root cli_tool
       = concat (map (\<lambda>subcmd. case map_of (subcommands root) subcmd of
                        Some sub \<Rightarrow> write_section cli_tool sub [subcmd]
                      | None \<Rightarrow> [])
                   (sort (map fst (subcommands root))))"
    unfolding generate_markdown_def sorted_keys_def [symmetric]
    by (subst write_section.simps) (simp cong: option.case_cong)
next
  show "\<exists>head. write_section cli_tool n path
         = head @ concat (map (\<lambda>subcmd. case map_of (subcommands n) subcmd of
                        Some sub \<Rightarrow> write_section cli_tool sub (path @ [subcmd])
                      | None \<Rightarrow> [])
                   (sort (map fst (subcommands n))))"
    unfolding sorted_keys_def [symmetric] by (rule write_section_tail)
qed

theorem rendered_headings_witness:
  "[''a'', ''x''] \<noteq> [] \<and> node_at nested_tree [''a'', ''x''] = Some (Node ''inner'' [] [])
   \<and> (\<exists>pre post. generate_markdown nested_tree ''t''
         = pre @ ''<a id='' @ [CHR 0x22] @ ''t-a-x'' @ [CHR 0x22] @ ''></a>'' @ [newline]
             @ ''### x'' @ [newline, newline] @ post)"
proof -
  have n: "node_at nested_tree [''a'', ''x''] = Some (Node ''inner'' [] [])"
    by code_simp
  have g: "generate_anchor_id ''t'' [''a'', ''x''] = ''t-a-x''"
    by code_simp
  have "[''a'', ''x''] \<noteq> [] \<and> node_at nested_tree [''a'', ''x''] = Some (Node ''inner'' [] []) \<longrightarrow>
      (\<exists>pre post. generate_markdown nested_tree ''t''
         = pre @ ''<a id='' @ [CHR 0x22] @ generate_anchor_id ''t'' [''a'', ''x''] @ [CHR 0x22]
             @ ''></a>'' @ [newline]
             @ replicate (min (length [''a'', ''x''] + 1) 6) CHR ''#'' @ '' ''
             @ (if length [''a'', ''x''] = 1 then ''t'' @ '' '' @ hd [''a'', ''x'']
                else join '' '' (tl [''a'', ''x'']))
             @ [newline, newline] @ post)"
    using rendered_headings [of "[''a'', ''x'']" nested_tree "Node ''inner'' [] []" "''t''"]
    by (rule conjunct1)
  with n obtain pre post where "generate_markdown nested_tree ''t''
         = pre @ ''<a id='' @ [CHR 0x22] @ generate_anchor_id ''t'' [''a'', ''x''] @ [CHR 0x22]
             @ ''></a>'' @ [newline]
             @ replicate (min (length [''a'', ''x''] + 1) 6) CHR ''#'' @ '' ''
             @ (if length [''a'', ''x''] = 1 then ''t'' @ '' '' @ hd [''a'', ''x'']
                else join '' '' (tl [''a'', ''x'']))
             @ [newline, newline] @ post"
    by blast
  with g have "generate_markdown nested_tree ''t''
         = pre @ ''<a id='' @ [CHR 0x22] @ ''t-a-x'' @ [CHR 0x22] @ ''></a>'' @ [newline]
             @ ''### x'' @ [newline, newline] @ post"
    by (simp add: numeral_3_eq_3)
  with n show ?thesis by blast
qed


subsection \<open>Probes of one build\<close>

lemma probes_between_refl: "probes_between probe cli_tool c proper st st"
  unfolding probes_between_def by (intro exI [of _ "[]"]) simp

lemma probes_between_update:
  "probes_between probe cli_tool c proper st st1 \<Longrightarrow>
   probes_between probe cli_tool c proper st
     (st1\<lparr>processed_commands := (processed_commands st1)(k \<mapsto> v)\<rparr>)"
  unfolding probes_between_def
  by (elim exE conjE, rule_tac x = new in exI) simp

lemma probes_between_child:
  "probes_between probe cli_tool (c @ [k]) False st st' \<Longrightarrow>
   probes_between probe cli_tool c True st st'"
  unfolding probes_between_def
proof (elim exE conjE, rule_tac x = new in exI, intro conjI)
  fix new
  assume "\<forall>a\<in>set new. \<exists>e. a = cli_tool # ((c @ [k]) @ e) @ [''--help''] \<and> (False \<longrightarrow> e \<noteq> [])"
  then show "\<forall>a\<in>set new. \<exists>e. a = cli_tool # (c @ e) @ [''--help''] \<and> (True \<longrightarrow> e \<noteq> [])"
  proof (intro ballI)
    fix a assume "a \<in> set new"
      and "\<forall>a\<in>set new. \<exists>e. a = cli_tool # ((c @ [k]) @ e) @ [''--help''] \<and> (False \<longrightarrow> e \<noteq> [])"
    then obtain e where "a = cli_tool # ((c @ [k]) @ e) @ [''--help'']" by blast
    then have "a = cli_tool # (c @ (k # e)) @ [''--help''] \<and> (True \<longrightarrow> k # e \<noteq> [])" by simp
    then show "\<exists>e. a = cli_tool # (c @ e) @ [''--help''] \<and> (True \<longrightarrow> e \<noteq> [])" by blast
  qed
qed assumption+

lemma probes_between_seq:
  assumes 1: "probes_between probe cli_tool c proper st st1"
    and 2: "probes_between probe cli_tool c proper st1 st2"
  shows "probes_between probe cli_tool c proper st st2"
proof -
  from 1 obtain n1 where
    a1: "probed st1 = probed st @ n1"
    and b1: "\<forall>a\<in>set n1. \<exists>e. a = cli_tool # (c @ e) @ [''--help''] \<and> (proper \<longrightarrow> e \<noteq> [])"
    and c1: "\<forall>x. cli_tool # x @ [''--help''] \<in> set n1
               \<longrightarrow> processed_commands st (command_key cli_tool x) = None"
    and d1: "\<forall>x. \<not> probe_failed probe (cli_tool # x) \<and> cli_tool # x @ [''--help''] \<in> set n1
               \<longrightarrow> processed_commands st1 (command_key cli_tool x) \<noteq> None"
    and e1: "\<forall>k. processed_commands st k \<noteq> None \<longrightarrow> processed_commands st1 k \<noteq> None"
    and f1: "\<forall>x. \<not> probe_failed probe (cli_tool # x)
               \<longrightarrow> count_list n1 (cli_tool # x @ [''--help'']) \<le> 1"
    unfolding probes_between_def by blast
  from 2 obtain n2 where
    a2: "probed st2 = probed st1 @ n2"
    and b2: "\<forall>a\<in>set n2. \<exists>e. a = cli_tool # (c @ e) @ [''--help''] \<and> (proper \<longrightarrow> e \<noteq> [])"
    and c2: "\<forall>x. cli_tool # x @ [''--help''] \<in> set n2
               \<longrightarrow> processed_commands st1 (command_key cli_tool x) = None"
    and d2: "\<forall>x. \<not> probe_failed probe (cli_tool # x) \<and> cli_tool # x @ [''--help''] \<in> set n2
               \<longrightarrow> processed_commands st2 (command_key cli_tool x) \<noteq> None"
    and e2: "\<forall>k. processed_commands st1 k \<noteq> None \<longrightarrow> processed_commands st2 k \<noteq> None"
    and f2: "\<forall>x. \<not> probe_failed probe (cli_tool # x)
               \<longrightarrow> count_list n2 (cli_tool # x @ [''--help'']) \<le> 1"
    unfolding probes_between_def by blast
  have a: "probed st2 = probed st @ (n1 @ n2)" using a1 a2 by simp
  have b: "\<forall>a\<in>set (n1 @ n2). \<exists>e. a = cli_tool # (c @ e) @ [''--help''] \<and> (proper \<longrightarrow> e \<noteq> [])"
    using b1 b2 by auto
  have c: "\<forall>x. cli_tool # x @ [''--help''] \<in> set (n1 @ n2)
               \<longrightarrow> processed_commands st (command_key cli_tool x) = None"
    using c1 c2 e1 by auto
  have d: "\<forall>x. \<not> probe_failed probe (cli_tool # x) \<and> cli_tool # x @ [''--help''] \<in> set (n1 @ n2)
               \<longrightarrow> processed_commands st2 (command_key cli_tool x) \<noteq> None"
    using d1 d2 e2 by auto
  have e: "\<forall>k. processed_commands st k \<noteq> None \<longrightarrow> processed_commands st2 k \<noteq> None"
    using e1 e2 by blast
  have f: "\<forall>x. \<not> probe_failed probe (cli_tool # x)
               \<longrightarrow> count_list (n1 @ n2) (cli_tool # x @ [''--help'']) \<le> 1"
  proof (intro allI impI)
    fix x assume ok: "\<not> probe_failed probe (cli_tool # x)"
    let ?a = "cli_tool # x @ [''--help'']"
    show "count_list (n1 @ n2) ?a \<le> 1"
    proof (cases "?a \<in> set n1")
      case True
      with ok d1 have "processed_commands st1 (command_key cli_tool x) \<noteq> None" by blast
      with c2 have "?a \<notin> set n2" by auto
      then have "count_list n2 ?a = 0" by (simp add: count_list_0_iff)
      with f1 ok show ?thesis by simp
    next
      case False
      then have "count_list n1 ?a = 0" by (simp add: count_list_0_iff)
      with f2 ok show ?thesis by simp
    qed
  qed
  from a b c d e f show ?thesis
    unfolding probes_between_def by blast
qed

lemma probes_between_failed:
  assumes "processed_commands st (command_key cli_tool c) = None"
    and "probe_failed probe (cli_tool # c)"
  shows "probes_between probe cli_tool c False st
           (st\<lparr>probed := probed st @ [(cli_tool # c) @ [''--help'']]\<rparr>)"
  unfolding probes_between_def
  using assms
  by (intro exI [of _ "[(cli_tool # c) @ [''--help'']]"]) auto

lemma probes_between_built:
  assumes n: "processed_commands st (command_key cli_tool c) = None"
    and 1: "probes_between probe cli_tool c True
              (st\<lparr>probed := probed st @ [(cli_tool # c) @ [''--help'']]\<rparr>) st2"
  shows "probes_between probe cli_tool c False st
           (st2\<lparr>processed_commands := (processed_commands st2)(command_key cli_tool c \<mapsto> n')\<rparr>)"
proof -
  let ?st1 = "st\<lparr>probed := probed st @ [(cli_tool # c) @ [''--help'']]\<rparr>"
  let ?st' = "st2\<lparr>processed_commands := (processed_commands st2)(command_key cli_tool c \<mapsto> n')\<rparr>"
  let ?a = "cli_tool # c @ [''--help'']"
  from 1 obtain n1 where
    a1: "probed st2 = probed ?st1 @ n1"
    and b1: "\<forall>a\<in>set n1. \<exists>e. a = cli_tool # (c @ e) @ [''--help''] \<and> (True \<longrightarrow> e \<noteq> [])"
    and c1: "\<forall>x. cli_tool # x @ [''--help''] \<in> set n1
               \<longrightarrow> processed_commands ?st1 (command_key cli_tool x) = None"
    and d1: "\<forall>x. \<not> probe_failed probe (cli_tool # x) \<and> cli_tool # x @ [''--help''] \<in> set n1
               \<longrightarrow> processed_commands st2 (command_key cli_tool x) \<noteq> None"
    and e1: "\<forall>k. processed_commands ?st1 k \<noteq> None \<longrightarrow> processed_commands st2 k \<noteq> None"
    and f1: "\<forall>x. \<not> probe_failed probe (cli_tool # x)
               \<longrightarrow> count_list n1 (cli_tool # x @ [''--help'']) \<le> 1"
    unfolding probes_between_def by blast
  have notin: "?a \<notin> set n1"
  proof
    assume "?a \<in> set n1"
    with b1 obtain e where "?a = cli_tool # (c @ e) @ [''--help'']" "e \<noteq> []" by blast
    then show False by simp
  qed
  have a: "probed ?st' = probed st @ (?a # n1)" using a1 by simp
  have b: "\<forall>a\<in>set (?a # n1). \<exists>e. a = cli_tool # (c @ e) @ [''--help''] \<and> (False \<longrightarrow> e \<noteq> [])"
  proof
    fix a assume "a \<in> set (?a # n1)"
    then consider "a = ?a" | "a \<in> set n1" by auto
    then show "\<exists>e. a = cli_tool # (c @ e) @ [''--help''] \<and> (False \<longrightarrow> e \<noteq> [])"
    proof cases
      case 1
      then have "a = cli_tool # (c @ []) @ [''--help''] \<and> (False \<longrightarrow> [] \<noteq> ([]::string list))" by simp
      then show ?thesis by blast
    next
      case 2
      with b1 show ?thesis by blast
    qed
  qed
  have c: "\<forall>x. cli_tool # x @ [''--help''] \<in> set (?a # n1)
               \<longrightarrow> processed_commands st (command_key cli_tool x) = None"
    using c1 n by auto
  have d: "\<forall>x. \<not> probe_failed probe (cli_tool # x) \<and> cli_tool # x @ [''--help''] \<in> set (?a # n1)
               \<longrightarrow> processed_commands ?st' (command_key cli_tool x) \<noteq> None"
    using d1 by auto
  have e: "\<forall>k. processed_commands st k \<noteq> None \<longrightarrow> processed_commands ?st' k \<noteq> None"
    using e1 by auto
  have f: "\<forall>x. \<not> probe_failed probe (cli_tool # x)
               \<longrightarrow> count_list (?a # n1) (cli_tool # x @ [''--help'']) \<le> 1"
  proof (intro allI impI)
    fix x assume ok: "\<not> probe_failed probe (cli_tool # x)"
    show "count_list (?a # n1) (cli_tool # x @ [''--help'']) \<le> 1"
    proof (cases "x = c")
      case True
      with notin have "count_list n1 (cli_tool # x @ [''--help'']) = 0"
        by (simp add: count_list_0_iff)
      with True show ?thesis by simp
    next
      case False
      with f1 ok show ?thesis by simp
    qed
  qed
  from a b c d e f show ?thesis
    unfolding probes_between_def by blast
qed

lemma probes_of_build:
  shows "probes_between probe cli_tool command_chain False st
           (snd (get_command_structure probe cli_tool command_chain max_depth current_depth st))"
    and "probes_between probe cli_tool command_chain True st
           (snd (process_subcommands probe cli_tool command_chain max_depth current_depth
                   lines subs st))"
proof (induction probe cli_tool command_chain max_depth current_depth st
    and probe cli_tool command_chain max_depth current_depth lines subs st
    rule: get_command_structure_process_subcommands.induct)
  case (1 probe cli_tool command_chain max_depth current_depth st)
  let ?st1 = "st\<lparr>probed := probed st @ [(cli_tool # command_chain) @ [''--help'']]\<rparr>"
  show ?case
  proof (cases "processed_commands st (command_key cli_tool command_chain)")
    case (Some n)
    then show ?thesis by (simp add: gcs_cached probes_between_refl)
  next
    case None
    show ?thesis
    proof (cases "max_depth < current_depth")
      case True
      with None show ?thesis by (simp add: gcs_too_deep probes_between_refl)
    next
      case False
      show ?thesis
      proof (cases "probe_failed probe (cli_tool # command_chain)")
        case True
        with None False probes_between_failed [OF None True] show ?thesis
          by (simp add: gcs_probe_failed)
      next
        case ok: False
        then obtain out where out: "probe ((cli_tool # command_chain) @ [''--help'']) = Some out"
          "strip out \<noteq> []"
          by (auto simp: probe_failed_def split: option.splits)
        obtain subs st2 where ps: "process_subcommands probe cli_tool command_chain max_depth
            current_depth (sorted_set (subcommand_lines out)) [] ?st1 = (subs, st2)"
          by (cases "process_subcommands probe cli_tool command_chain max_depth
            current_depth (sorted_set (subcommand_lines out)) [] ?st1")
        from "1.IH" [OF refl None False refl out] ps
        have "probes_between probe cli_tool command_chain True ?st1 st2" by simp
        from probes_between_built [OF None this] None False out ps show ?thesis
          using gcs_built [of st cli_tool command_chain current_depth max_depth probe out subs st2]
          by simp
      qed
    qed
  qed
next
  case (2 probe cli_tool command_chain max_depth current_depth subs st)
  show ?case by (simp add: process_subcommands.simps probes_between_refl)
next
  case (3 probe cli_tool command_chain max_depth current_depth line lines subs st)
  let ?x = "fst line"
  let ?d = "replace_angle_brackets (strip (snd line))"
  obtain r st1 where g: "get_command_structure probe cli_tool (command_chain @ [?x]) max_depth
      (current_depth + 1) st = (r, st1)"
    by (cases "get_command_structure probe cli_tool (command_chain @ [?x]) max_depth
      (current_depth + 1) st")
  from "3.IH"(1) [OF refl refl] g
  have "probes_between probe cli_tool (command_chain @ [?x]) False st st1" by simp
  then have first: "probes_between probe cli_tool command_chain True st st1"
    by (rule probes_between_child)
  show ?case
  proof (cases r)
    case None
    from "3.IH"(2) [OF refl refl refl g [symmetric] None]
    have "probes_between probe cli_tool command_chain True st1
           (snd (process_subcommands probe cli_tool command_chain max_depth current_depth lines
              (AList.update ?x (Node ?d [] []) subs) st1))" .
    from probes_between_seq [OF first this] g None show ?thesis
      by (simp add: process_subcommands.simps(2))
  next
    case (Some sub)
    show ?thesis
    proof (cases "description sub = []")
      case True
      let ?sub' = "set_description ?d sub"
      let ?st2 = "st1\<lparr>processed_commands := (processed_commands st1)
                    (command_key cli_tool (command_chain @ [?x]) \<mapsto> ?sub')\<rparr>"
      from "3.IH"(3) [OF refl refl refl g [symmetric] Some True refl refl]
      have "probes_between probe cli_tool command_chain True ?st2
           (snd (process_subcommands probe cli_tool command_chain max_depth current_depth lines
              (AList.update ?x ?sub' subs) ?st2))" .
      from probes_between_seq [OF probes_between_update [OF first] this] g Some True
      show ?thesis
        by (simp add: process_subcommands.simps(2) Let_def)
    next
      case False
      from "3.IH"(4) [OF refl refl refl g [symmetric] Some False]
      have "probes_between probe cli_tool command_chain True st1
           (snd (process_subcommands probe cli_tool command_chain max_depth current_depth lines
              (AList.update ?x sub subs) st1))" .
      from probes_between_seq [OF first this] g Some False show ?thesis
        by (simp add: process_subcommands.simps(2))
    qed
  qed
qed

text \<open>
  With a prober that answers alike whenever it is asked for the same command: in one
  build the prober is called at most once for every command whose probe does not fail,
  however often and with whatever descriptions the command is listed; and a call for a
  chain that is stored in \<^verbatim>\<open>processed_commands\<close> returns the stored node without a probe
  and without a change of the state.
\<close>

lemma successful_probe_at_most_once:
  "(\<not> probe_failed probe cmd
      \<longrightarrow> count_list (probed (snd (build probe cli_tool max_depth))) (cmd @ [''--help'']) \<le> 1)
   \<and> (processed_commands st (command_key cli_tool command_chain) = Some n
      \<longrightarrow> get_command_structure probe cli_tool command_chain max_depth current_depth st
            = (Some n, st))"
proof (intro conjI impI)
  assume ok: "\<not> probe_failed probe cmd"
  from probes_of_build(1) [of probe cli_tool "[]" initial_state max_depth 0]
  obtain new where
    a: "probed (snd (build probe cli_tool max_depth)) = new"
    and b: "\<forall>a\<in>set new. \<exists>e. a = cli_tool # e @ [''--help'']"
    and f: "\<forall>x. \<not> probe_failed probe (cli_tool # x)
               \<longrightarrow> count_list new (cli_tool # x @ [''--help'']) \<le> 1"
    unfolding probes_between_def build_def by (auto simp: initial_state_def)
  show "count_list (probed (snd (build probe cli_tool max_depth))) (cmd @ [''--help'']) \<le> 1"
  proof (cases "cmd @ [''--help''] \<in> set new")
    case True
    with b obtain e where "cmd @ [''--help''] = cli_tool # e @ [''--help'']" by blast
    then have "cmd = cli_tool # e" by simp
    with ok f a show ?thesis by simp
  next
    case False
    with a show ?thesis by (simp add: count_list_0_iff)
  qed
next
  assume "processed_commands st (command_key cli_tool command_chain) = Some n"
  then show "get_command_structure probe cli_tool command_chain max_depth current_depth st
            = (Some n, st)"
    by (rule gcs_cached)
qed

lemma successful_probe_at_most_once_example:
  "\<not> probe_failed duplicate_working_probe [''t'', ''x'']
   \<and> count_list (probed (snd (build duplicate_working_probe ''t'' 10)))
       ([''t'', ''x''] @ [''--help'']) \<le> 1
   \<and> probed (snd (build duplicate_working_probe ''t'' 10))
       = [[''t'', ''--help''], [''t'', ''x'', ''--help'']]
   \<and> processed_commands cached_state (command_key ''t'' [''x'']) = Some (Node ''cached'' [] [])
   \<and> get_command_structure duplicate_working_probe ''t'' [''x''] 10 1 cached_state
       = (Some (Node ''cached'' [] []), cached_state)"
proof -
  have ok: "\<not> probe_failed duplicate_working_probe [''t'', ''x'']"
    by code_simp
  have c: "processed_commands cached_state (command_key ''t'' [''x'']) = Some (Node ''cached'' [] [])"
    by (simp add: cached_state_def command_key_def)
  have p: "probed (snd (build duplicate_working_probe ''t'' 10))
       = [[''t'', ''--help''], [''t'', ''x'', ''--help'']]"
    by code_simp
  from successful_probe_at_most_once [where probe = duplicate_working_probe
      and cmd = "[''t'', ''x'']" and cli_tool = "''t''" and max_depth = 10
      and st = cached_state and command_chain = "[''x'']" and n = "Node ''cached'' [] []"
      and current_depth = 1] ok c p
  show ?thesis by simp
qed

text \<open>
  C1. Every command is meant to be probed at most once in one build (the source says
  \<^verbatim>\<open>Prevent re-processing of the same command\<close>), but the code does not achieve it: a
  failed probe returns before anything is stored, so a command that is listed twice with
  different descriptions and whose probe fails is probed twice.
\<close>

theorem failed_probe_repeated_counterexample:
  "probed (snd (build duplicate_failing_probe ''t'' 10))
     = [[''t'', ''--help''], [''t'', ''x'', ''--help''], [''t'', ''x'', ''--help'']]
   \<and> count_list (probed (snd (build duplicate_failing_probe ''t'' 10)))
       [''t'', ''x'', ''--help''] = 2"
  by code_simp

subsection \<open>Independence of the listing order\<close>



subsection \<open>Flags of the two blocks\<close>






















subsection \<open>Complete listing lines\<close>








subsection \<open>Independence of the listing order, continued\<close>





subsection \<open>A listing line with a name only\<close>






end
